theory Spec2Isabelle
  imports Main "HOL-Library.AList"
begin

section \<open>Values of the host language\<close>

text \<open>
  The library (\<^verbatim>\<open>packages/redis-fluent-keys/src/index.ts\<close>) manufactures strings from
  a schema literal. The values it inspects at run time are the primitives
  (\<^verbatim>\<open>type Primitive = string | number | boolean\<close>) and, on calls that bypass the
  type checker, \<^verbatim>\<open>undefined\<close> and \<^verbatim>\<open>null\<close>.

  Numbers are modelled as integers: for an integer-valued number of magnitude below
  \<open>10^21\<close> the host's \<^verbatim>\<open>String(n)\<close> is the decimal numeral, with a leading minus sign
  for negative values. Fractions, \<^verbatim>\<open>NaN\<close> and the infinities are outside the model.
\<close>

datatype atom = Undefined | Null | Str string | Num int | Bool bool

fun digits :: "nat \<Rightarrow> string" where
  "digits n = (if n < 10 then [''0123456789'' ! n]
               else digits (n div 10) @ [''0123456789'' ! (n mod 10)])"

declare digits.simps [simp del]

text \<open>\<^verbatim>\<open>String(v)\<close>, the host's conversion of a value to text.\<close>

fun String_js :: "atom \<Rightarrow> string" where
  "String_js Undefined = ''undefined''"
| "String_js Null = ''null''"
| "String_js (Str s) = s"
| "String_js (Num n) = (if n < 0 then CHR ''-'' # digits (nat (- n)) else digits (nat n))"
| "String_js (Bool b) = (if b then ''true'' else ''false'')"

text \<open>\<^verbatim>\<open>Array.prototype.join\<close>: no element is dropped, empty strings included.\<close>

fun join :: "string \<Rightarrow> string list \<Rightarrow> string" where
  "join sep [] = []"
| "join sep [x] = x"
| "join sep (x # y # ys) = x @ sep @ join sep (y # ys)"

text \<open>
  The own properties of an argument object \<^verbatim>\<open>Record<string, Primitive>\<close> are a finite
  map from property names to values.
\<close>

type_synonym args = "string \<rightharpoonup> atom"

text \<open>
  A property read \<^verbatim>\<open>args?.[name]\<close> goes through the prototype chain. What it finds
  there is a function or an object of the host (\<^verbatim>\<open>toString\<close>, \<^verbatim>\<open>constructor\<close>, ...),
  which is neither \<^verbatim>\<open>undefined\<close> nor \<^verbatim>\<open>null\<close>; it is represented by the text that
  \<^verbatim>\<open>String\<close> returns for it. A prototype may also hold plain values.
\<close>

datatype argValue = Plain atom | Builtin string

text \<open>
  An object: its own properties, and the properties it inherits along its prototype
  chain.
\<close>

datatype object = Object (own: args) (inherited: "string \<rightharpoonup> argValue")

text \<open>
  The properties of \<^verbatim>\<open>Object.prototype\<close>, which every object literal inherits. Their
  texts are those of Node: a built-in function prints as
  \<^verbatim>\<open>function name() { [native code] }\<close>, and the accessor \<^verbatim>\<open>__proto__\<close> yields
  \<^verbatim>\<open>Object.prototype\<close> itself, which prints as \<^verbatim>\<open>[object Object]\<close>.
\<close>

definition native :: "string \<Rightarrow> argValue" where
  "native n = Builtin (''function '' @ n @ ''() { [native code] }'')"

definition Object_prototype :: "string \<rightharpoonup> argValue" where
  "Object_prototype =
     map_of
       [(''constructor'', native ''Object''),
        (''hasOwnProperty'', native ''hasOwnProperty''),
        (''isPrototypeOf'', native ''isPrototypeOf''),
        (''propertyIsEnumerable'', native ''propertyIsEnumerable''),
        (''toLocaleString'', native ''toLocaleString''),
        (''toString'', native ''toString''),
        (''valueOf'', native ''valueOf''),
        (''__defineGetter__'', native ''__defineGetter__''),
        (''__defineSetter__'', native ''__defineSetter__''),
        (''__lookupGetter__'', native ''__lookupGetter__''),
        (''__lookupSetter__'', native ''__lookupSetter__''),
        (''__proto__'', Builtin ''[object Object]'')]"

text \<open>
  An object literal \<^verbatim>\<open>{ name: value, ... }\<close>, or any object made from one by assigning
  properties. (Written in a literal, \<^verbatim>\<open>__proto__: value\<close> stores no property; an own
  property of that name comes from a computed key or a parser.)
\<close>

definition object_literal :: "args \<Rightarrow> object" where
  "object_literal m = Object m Object_prototype"

text \<open>
  \<^verbatim>\<open>args?.[name]\<close>: \<^verbatim>\<open>undefined\<close> when no object was passed; otherwise the own
  property if there is one, else the inherited one, else \<^verbatim>\<open>undefined\<close>.
\<close>

definition arg_value :: "object option \<Rightarrow> string \<Rightarrow> argValue" where
  "arg_value a n =
     (case a of None \<Rightarrow> Plain Undefined
      | Some obj \<Rightarrow>
          (case own obj n of
             Some v \<Rightarrow> Plain v
           | None \<Rightarrow> (case inherited obj n of None \<Rightarrow> Plain Undefined | Some w \<Rightarrow> w)))"

text \<open>The test \<^verbatim>\<open>argValue === undefined || argValue === null\<close>.\<close>

definition missing :: "atom \<Rightarrow> bool" where
  "missing v = (v = Undefined \<or> v = Null)"

fun nullish :: "argValue \<Rightarrow> bool" where
  "nullish (Plain v) = missing v"
| "nullish (Builtin t) = False"

text \<open>\<^verbatim>\<open>String(argValue)\<close> for a value read from an argument object.\<close>

fun String_of :: "argValue \<Rightarrow> string" where
  "String_of (Plain v) = String_js v"
| "String_of (Builtin t) = t"

text \<open>A thrown \<^verbatim>\<open>new Error(message)\<close>.\<close>

datatype error = Error string

definition dq :: string where
  "dq = [CHR 0x22]"

section \<open>Schema model\<close>

text \<open>
  \<^verbatim>\<open>pBase\<close> returns an object carrying the private placeholder symbol and \<^verbatim>\<open>_name\<close>;
  the declared primitive kind exists only in the static types.
\<close>

datatype placeholder = Placeholder (ph_name: string)

definition pBase :: "string \<Rightarrow> placeholder" where
  "pBase n = Placeholder n"

definition p :: "string \<Rightarrow> placeholder" where
  "p n = pBase n"

definition p_number :: "string \<Rightarrow> placeholder" where
  "p_number n = pBase n"

definition p_boolean :: "string \<Rightarrow> placeholder" where
  "p_boolean n = pBase n"

text \<open>\<^verbatim>\<open>type KeyDefinitionPart = string | Placeholder\<close>.\<close>

datatype part = Lit string | Ph placeholder

text \<open>
  The first field of a \<^verbatim>\<open>Parameterized\<close> object: one placeholder, or an array of them.
\<close>

datatype placeholders = Single placeholder | Tuple "placeholder list"

text \<open>
  A value stored under a key of a schema object. Besides the three shapes of the
  static type (\<^verbatim>\<open>KeyDefinition | NestedSchema | Parameterized\<close>) a schema that was cast
  can hold \<^verbatim>\<open>undefined\<close>, \<^verbatim>\<open>null\<close> or a primitive, which the compiler tests for.
  A schema object is the list of its own enumerable properties in enumeration order;
  the keys of an object are pairwise distinct. The two marker symbols are private to
  the module, so an object carrying the parameterized marker was made by
  \<^verbatim>\<open>parameterize\<close> and a part carrying the placeholder marker by \<^verbatim>\<open>pBase\<close>. Function
  values and parts that are neither strings nor placeholders are outside the model.
\<close>

datatype node =
    Atom atom
  | KeyDefinition "part list"
  | Parameterized placeholders "(string \<times> node) list"
  | NestedSchema "(string \<times> node) list"

type_synonym schema = "(string \<times> node) list"

section \<open>The parameterization constructor\<close>

text \<open>
  The arguments \<^verbatim>\<open>parameterize\<close> can receive once the static types are bypassed, as
  far as its two guards tell them apart: the placeholder argument is \<^verbatim>\<open>undefined\<close>,
  \<^verbatim>\<open>null\<close>, a placeholder or an array of placeholders; the schema argument is a primitive,
  \<^verbatim>\<open>undefined\<close> or \<^verbatim>\<open>null\<close> (\<open>NotAnObject\<close>), an array, or a mapping object.
\<close>

datatype placeholder_arg = NoPlaceholder | NullPlaceholder | Given placeholders

datatype schema_arg = NotAnObject atom | AnArray "part list" | Mapping schema

text \<open>\<^verbatim>\<open>Array.isArray(placeholder) && placeholder.length === 0\<close>\<close>

fun empty_array :: "placeholders \<Rightarrow> bool" where
  "empty_array (Single ph) = False"
| "empty_array (Tuple phs) = (length phs = 0)"

definition placeholder_required :: error where
  "placeholder_required =
     Error ''[RedisKeyBuilder] parameterize requires at least one placeholder.''"

definition schema_required :: error where
  "schema_required =
     Error ''[RedisKeyBuilder] parameterize requires a valid nested schema object as the second argument.''"

text \<open>
  The first guard is \<^verbatim>\<open>!placeholder || (Array.isArray(placeholder) && ...)\<close>: an
  absent or null argument is falsy, a placeholder object and an array are not. The
  second is
  \<^verbatim>\<open>typeof nestedSchema !== "object" || nestedSchema === null || Array.isArray(nestedSchema)\<close>.
  Past both guards the two arguments are stored as they are.
\<close>

fun parameterize :: "placeholder_arg \<Rightarrow> schema_arg \<Rightarrow> error + node" where
  "parameterize NoPlaceholder nestedSchema = Inl placeholder_required"
| "parameterize NullPlaceholder nestedSchema = Inl placeholder_required"
| "parameterize (Given phs) nestedSchema =
     (if empty_array phs then Inl placeholder_required
      else (case nestedSchema of
              NotAnObject a \<Rightarrow> Inl schema_required
            | AnArray ps \<Rightarrow> Inl schema_required
            | Mapping s \<Rightarrow> Inr (Parameterized phs s)))"

section \<open>The compiled result tree\<close>

text \<open>
  The compiler returns closures. Each closure is represented by the variables it
  captures:
  \<^item> \<^verbatim>\<open>() => builder()\<close> and \<^verbatim>\<open>(args) => builder(args)\<close> capture \<^verbatim>\<open>separator\<close> and
    \<^verbatim>\<open>fullPathDefinition\<close>;
  \<^item> \<^verbatim>\<open>parameterizerFunc\<close> captures \<^verbatim>\<open>separator\<close>, \<^verbatim>\<open>currentPrefix\<close>, \<^verbatim>\<open>key\<close>,
    \<^verbatim>\<open>paramPlaceholders\<close> and \<^verbatim>\<open>subSchema\<close>;
  \<^item> a static level is the object \<^verbatim>\<open>levelResult\<close>, an association list of its
    properties.
\<close>

datatype compiled =
    LeafNoArgs string "part list"
  | LeafArgs string "part list"
  | ParameterizingFunction string "string list" string placeholders "(string \<times> node) list"
  | Level "(string \<times> compiled) list"

type_synonym tree = "(string \<times> compiled) list"

section \<open>The leaf builder\<close>

text \<open>
  \<^verbatim>\<open>fullPathDefinition.map((p) => (typeof p === "string" ? p : `${p._name}`)).join(separator)\<close>
\<close>

fun hint_segment :: "part \<Rightarrow> string" where
  "hint_segment (Lit s) = s"
| "hint_segment (Ph ph) = ph_name ph"

definition keyPathHint :: "string \<Rightarrow> part list \<Rightarrow> string" where
  "keyPathHint sep fullPathDefinition = join sep (map hint_segment fullPathDefinition)"

definition missing_argument :: "string \<Rightarrow> string \<Rightarrow> error" where
  "missing_argument n hint =
     Error (''[RedisKeyBuilder] Missing value for argument placeholder '' @ dq @ n @ dq
            @ '' when building key like '' @ dq @ hint @ dq @ ''.'')"

text \<open>
  The loop \<^verbatim>\<open>for (const part of fullPathDefinition)\<close> of \<^verbatim>\<open>builder\<close>, with the array
  \<^verbatim>\<open>keyParts\<close> as accumulator; the throw leaves the loop.
\<close>

fun builder_loop :: "string \<Rightarrow> part list \<Rightarrow> object option \<Rightarrow> part list \<Rightarrow> string list
    \<Rightarrow> error + string list" where
  "builder_loop sep fullPathDefinition a [] keyParts = Inr keyParts"
| "builder_loop sep fullPathDefinition a (Lit s # rest) keyParts =
     builder_loop sep fullPathDefinition a rest (keyParts @ [s])"
| "builder_loop sep fullPathDefinition a (Ph ph # rest) keyParts =
     (let argValue = arg_value a (ph_name ph) in
      if nullish argValue then
        Inl (missing_argument (ph_name ph) (keyPathHint sep fullPathDefinition))
      else builder_loop sep fullPathDefinition a rest (keyParts @ [String_of argValue]))"

definition builder :: "string \<Rightarrow> part list \<Rightarrow> object option \<Rightarrow> error + string" where
  "builder sep fullPathDefinition a =
     (case builder_loop sep fullPathDefinition a fullPathDefinition [] of
        Inl e \<Rightarrow> Inl e
      | Inr keyParts \<Rightarrow> Inr (join sep keyParts))"

section \<open>The schema compiler\<close>

fun is_placeholder :: "part \<Rightarrow> bool" where
  "is_placeholder (Lit s) = False"
| "is_placeholder (Ph ph) = True"

text \<open>
  The leaf case of the traversal: the full path is the prefix followed by the local
  definition, and the wrapper is chosen by the number of local placeholders.
\<close>

definition leaf :: "string \<Rightarrow> string list \<Rightarrow> part list \<Rightarrow> compiled" where
  "leaf sep currentPrefix localDefinition =
     (let fullPathDefinition = map Lit currentPrefix @ localDefinition;
          localPlaceholders = filter is_placeholder localDefinition
      in if length localPlaceholders = 0 then LeafNoArgs sep fullPathDefinition
         else LeafArgs sep fullPathDefinition)"

text \<open>
  \<^verbatim>\<open>processSchemaLevel\<close>: the loop \<^verbatim>\<open>for (const key in schemaLevel)\<close> with the object
  \<^verbatim>\<open>levelResult\<close> as accumulator. The equations follow the order of the tests in the
  source: \<^verbatim>\<open>undefined\<close> first, then the parameterized marker, then arrays, then any other
  non-null object, and last the fallback, which only warns. The two
  \<^verbatim>\<open>console.warn\<close> diagnostics have no effect on the result and are left out.
\<close>

fun process_entries :: "string \<Rightarrow> string list \<Rightarrow> schema \<Rightarrow> tree \<Rightarrow> tree" where
  "process_entries sep currentPrefix [] levelResult = levelResult"
| "process_entries sep currentPrefix ((key, Atom Undefined) # rest) levelResult =
     process_entries sep currentPrefix rest levelResult"
| "process_entries sep currentPrefix ((key, Parameterized paramPlaceholders subSchema) # rest) levelResult =
     process_entries sep currentPrefix rest
       (AList.update key
          (ParameterizingFunction sep currentPrefix key paramPlaceholders subSchema)
          levelResult)"
| "process_entries sep currentPrefix ((key, KeyDefinition localDefinition) # rest) levelResult =
     process_entries sep currentPrefix rest
       (AList.update key (leaf sep currentPrefix localDefinition) levelResult)"
| "process_entries sep currentPrefix ((key, NestedSchema s) # rest) levelResult =
     process_entries sep currentPrefix rest
       (AList.update key
          (Level (process_entries sep (currentPrefix @ [key]) s []))
          levelResult)"
| "process_entries sep currentPrefix ((key, Atom a) # rest) levelResult =
     process_entries sep currentPrefix rest levelResult"

definition processSchemaLevel :: "string \<Rightarrow> schema \<Rightarrow> string list \<Rightarrow> tree" where
  "processSchemaLevel sep schemaLevel currentPrefix =
     process_entries sep currentPrefix schemaLevel []"

definition defineSchema :: "string \<Rightarrow> schema \<Rightarrow> tree" where
  "defineSchema sep s = processSchemaLevel sep s []"

text \<open>\<^verbatim>\<open>const separator = options?.separator ?? ":"\<close>\<close>

record KeyBuilderOptions =
  separator :: "string option"

definition configured_separator :: "KeyBuilderOptions option \<Rightarrow> string" where
  "configured_separator options =
     (case options of None \<Rightarrow> '':''
      | Some opts \<Rightarrow> (case separator opts of None \<Rightarrow> '':'' | Some s \<Rightarrow> s))"

definition createKeyBuilder :: "KeyBuilderOptions option \<Rightarrow> schema \<Rightarrow> tree" where
  "createKeyBuilder options = defineSchema (configured_separator options)"

section \<open>The parameterizing function\<close>

text \<open>\<^verbatim>\<open>Array.isArray(paramPlaceholders) ? paramPlaceholders : [paramPlaceholders]\<close>\<close>

fun placeholdersArray :: "placeholders \<Rightarrow> placeholder list" where
  "placeholdersArray (Single ph) = [ph]"
| "placeholdersArray (Tuple phs) = phs"

definition missing_parameter :: "string \<Rightarrow> string \<Rightarrow> error" where
  "missing_parameter n pathSoFar =
     Error (''[RedisKeyBuilder] Missing value for path parameter '' @ dq @ n @ dq
            @ '' required by '' @ dq @ pathSoFar @ dq @ ''.'')"

text \<open>
  The loop \<^verbatim>\<open>for (const ph of placeholdersArray)\<close> with \<^verbatim>\<open>paramValues\<close> as accumulator.
\<close>

fun param_loop :: "string \<Rightarrow> string list \<Rightarrow> string \<Rightarrow> object option \<Rightarrow> placeholder list
    \<Rightarrow> string list \<Rightarrow> error + string list" where
  "param_loop sep currentPrefix key paramArgs [] paramValues = Inr paramValues"
| "param_loop sep currentPrefix key paramArgs (ph # rest) paramValues =
     (let argValue = arg_value paramArgs (ph_name ph) in
      if nullish argValue then
        Inl (missing_parameter (ph_name ph) (join sep (currentPrefix @ [key])))
      else param_loop sep currentPrefix key paramArgs rest
             (paramValues @ [String_of argValue]))"

definition parameterizerFunc :: "string \<Rightarrow> string list \<Rightarrow> string \<Rightarrow> placeholders \<Rightarrow> schema
    \<Rightarrow> object option \<Rightarrow> error + tree" where
  "parameterizerFunc sep currentPrefix key paramPlaceholders subSchema paramArgs =
     (case param_loop sep currentPrefix key paramArgs
             (placeholdersArray paramPlaceholders) [] of
        Inl e \<Rightarrow> Inl e
      | Inr paramValues \<Rightarrow>
          Inr (processSchemaLevel sep subSchema (currentPrefix @ [key] @ paramValues)))"

section \<open>Using a compiled tree\<close>

text \<open>
  Calling a function of the compiled tree with an optional argument object. The
  result is a key or a freshly compiled sub-tree. A static level is not a function;
  \<open>None\<close> stands for such a misuse by the caller, which the library never sees.
\<close>

datatype outcome = Key string | Tree tree

fun invoke :: "compiled \<Rightarrow> object option \<Rightarrow> (error + outcome) option" where
  "invoke (LeafNoArgs sep fullPathDefinition) a =
     Some (map_sum id Key (builder sep fullPathDefinition None))"
| "invoke (LeafArgs sep fullPathDefinition) a =
     Some (map_sum id Key (builder sep fullPathDefinition a))"
| "invoke (ParameterizingFunction sep currentPrefix key paramPlaceholders subSchema) a =
     Some (map_sum id Tree
       (parameterizerFunc sep currentPrefix key paramPlaceholders subSchema a))"
| "invoke (Level t) a = None"

text \<open>
  An expression such as \<^verbatim>\<open>keys.param.user({userId: "u"}).orders.byId({orderId: 5})\<close> is
  a sequence of property reads and calls that ends in the call of a leaf. A read
  follows the properties the compiler assigned; a path that leaves them (a key that
  was not compiled, a member the result object merely inherits) reaches no leaf and is
  \<open>None\<close> as well.
\<close>

datatype step = Get string | Call "object option"

fun access :: "compiled \<Rightarrow> step list \<Rightarrow> (error + string) option" where
  "access c [] = None"
| "access (Level t) (Get k # rest) =
     (case map_of t k of None \<Rightarrow> None | Some c \<Rightarrow> access c rest)"
| "access c (Get k # rest) = None"
| "access c (Call a # rest) =
     (case invoke c a of
        None \<Rightarrow> None
      | Some (Inl e) \<Rightarrow> Some (Inl e)
      | Some (Inr (Key s)) \<Rightarrow> (if rest = [] then Some (Inr s) else None)
      | Some (Inr (Tree t)) \<Rightarrow> access (Level t) rest)"

section \<open>Notions used in the statements\<close>

text \<open>
  The token a part of a path contributes once its placeholder is resolved: a literal
  is taken as it is, a placeholder is replaced by the text of its argument.
\<close>

fun token :: "object option \<Rightarrow> part \<Rightarrow> string" where
  "token a (Lit s) = s"
| "token a (Ph ph) = String_of (arg_value a (ph_name ph))"

text \<open>Every placeholder of a list of parts has a value that is neither absent nor null.\<close>

definition resolved :: "object option \<Rightarrow> part list \<Rightarrow> bool" where
  "resolved a ps = (\<forall>ph. Ph ph \<in> set ps \<longrightarrow> \<not> nullish (arg_value a (ph_name ph)))"

text \<open>The coerced values of the placeholders of a parameterized node, in declared order.\<close>

definition param_values :: "object option \<Rightarrow> placeholder list \<Rightarrow> string list" where
  "param_values a phs = map (\<lambda>ph. String_of (arg_value a (ph_name ph))) phs"

text \<open>
  What one iteration of the loop of \<^verbatim>\<open>processSchemaLevel\<close> assigns to
  \<^verbatim>\<open>levelResult[key]\<close>, if anything.
\<close>

fun compile_value :: "string \<Rightarrow> string list \<Rightarrow> string \<Rightarrow> node \<Rightarrow> compiled option" where
  "compile_value sep P k (Atom a) = None"
| "compile_value sep P k (Parameterized phs sub) = Some (ParameterizingFunction sep P k phs sub)"
| "compile_value sep P k (KeyDefinition d) = Some (leaf sep P d)"
| "compile_value sep P k (NestedSchema sub) = Some (Level (processSchemaLevel sep sub (P @ [k])))"

text \<open>
  The same closures with another separator captured; used to compare the trees that
  two builder factories produce for one schema.
\<close>

primrec resep :: "string \<Rightarrow> compiled \<Rightarrow> compiled" where
  "resep s (LeafNoArgs s0 full) = LeafNoArgs s full"
| "resep s (LeafArgs s0 full) = LeafArgs s full"
| "resep s (ParameterizingFunction s0 P k phs sub) = ParameterizingFunction s P k phs sub"
| "resep s (Level t) = Level (map (map_prod id (resep s)) t)"

definition retree :: "string \<Rightarrow> tree \<Rightarrow> tree" where
  "retree s t = map (map_prod id (resep s)) t"

text \<open>
  The array \<^verbatim>\<open>keyParts\<close> that the leaf at the end of an access path has filled when it
  reaches its \<^verbatim>\<open>join\<close>: \<open>access\<close> with the last step of \<^verbatim>\<open>builder\<close> left out.
\<close>

fun key_parts :: "compiled \<Rightarrow> step list \<Rightarrow> (error + string list) option" where
  "key_parts c [] = None"
| "key_parts (Level t) (Get k # rest) =
     (case map_of t k of None \<Rightarrow> None | Some c \<Rightarrow> key_parts c rest)"
| "key_parts c (Get k # rest) = None"
| "key_parts (LeafNoArgs sep fullPathDefinition) (Call a # rest) =
     (case builder_loop sep fullPathDefinition None fullPathDefinition [] of
        Inl e \<Rightarrow> Some (Inl e)
      | Inr keyParts \<Rightarrow> (if rest = [] then Some (Inr keyParts) else None))"
| "key_parts (LeafArgs sep fullPathDefinition) (Call a # rest) =
     (case builder_loop sep fullPathDefinition a fullPathDefinition [] of
        Inl e \<Rightarrow> Some (Inl e)
      | Inr keyParts \<Rightarrow> (if rest = [] then Some (Inr keyParts) else None))"
| "key_parts (ParameterizingFunction sep currentPrefix key paramPlaceholders subSchema)
       (Call a # rest) =
     (case parameterizerFunc sep currentPrefix key paramPlaceholders subSchema a of
        Inl e \<Rightarrow> Some (Inl e)
      | Inr t \<Rightarrow> key_parts (Level t) rest)"
| "key_parts (Level t) (Call a # rest) = None"

section \<open>The leaf builder and the traversal, step by step\<close>

lemma builder_loop_resolved:
  "resolved a rest \<Longrightarrow> builder_loop sep full a rest acc = Inr (acc @ map (token a) rest)"
  by (induction sep full a rest acc rule: builder_loop.induct) (auto simp: resolved_def Let_def)

lemma builder_loop_missing:
  "resolved a pre \<Longrightarrow> nullish (arg_value a (ph_name ph)) \<Longrightarrow>
   builder_loop sep full a (pre @ Ph ph # post) acc
     = Inl (missing_argument (ph_name ph) (keyPathHint sep full))"
  by (induction sep full a pre acc rule: builder_loop.induct) (auto simp: resolved_def Let_def)

lemma builder_resolved:
  "resolved a full \<Longrightarrow> builder sep full a = Inr (join sep (map (token a) full))"
  by (simp add: builder_def builder_loop_resolved)

lemma builder_missing:
  "resolved a pre \<Longrightarrow> nullish (arg_value a (ph_name ph)) \<Longrightarrow>
   builder sep (pre @ Ph ph # post) a
     = Inl (missing_argument (ph_name ph) (keyPathHint sep (pre @ Ph ph # post)))"
  by (simp add: builder_def builder_loop_missing)

lemma resolved_literals [simp]: "resolved a (map Lit xs)"
  by (auto simp: resolved_def)

lemma resolved_append [simp]: "resolved a (xs @ ys) \<longleftrightarrow> resolved a xs \<and> resolved a ys"
  by (auto simp: resolved_def)

lemma token_literals [simp]: "map (token a \<circ> Lit) xs = xs"
  by (induction xs) auto

lemma hint_literals [simp]: "map (hint_segment \<circ> Lit) xs = xs"
  by (induction xs) auto

lemma no_local_placeholders:
  "filter is_placeholder d = [] \<Longrightarrow> resolved a d \<and> map (token a) d = map (token b) d"
proof (induction d)
  case Nil
  then show ?case by (simp add: resolved_def)
next
  case (Cons x d)
  then show ?case by (cases x) (auto simp: resolved_def split: if_splits)
qed

lemma invoke_leaf_resolved:
  assumes "resolved a d"
  shows "invoke (leaf sep P d) a = Some (Inr (Key (join sep (P @ map (token a) d))))"
proof (cases "filter is_placeholder d = []")
  case True
  from no_local_placeholders [OF True, of None a]
  have "resolved None d" and "map (token None) d = map (token a) d"
    by blast+
  then show ?thesis using True
    by (simp add: leaf_def builder_resolved del: map_eq_conv)
next
  case False
  then show ?thesis using assms
    by (simp add: leaf_def builder_resolved)
qed

lemma invoke_leaf_missing:
  assumes "resolved a pre" and "nullish (arg_value a (ph_name ph))"
  shows "invoke (leaf sep P (pre @ Ph ph # post)) a
     = Some (Inl (missing_argument (ph_name ph)
                   (join sep (P @ map hint_segment (pre @ Ph ph # post)))))"
proof -
  have "resolved a (map Lit P @ pre)" using assms by simp
  from builder_missing [OF this assms(2), of sep post]
  show ?thesis
    by (simp add: leaf_def keyPathHint_def)
qed

lemma process_entries_other:
  "k \<notin> fst ` set es \<Longrightarrow> map_of (process_entries sep P es acc) k = map_of acc k"
  by (induction sep P es acc rule: process_entries.induct) (auto simp: update_conv')

lemma process_entries_step:
  "process_entries sep P ((key, v) # rest) acc
     = process_entries sep P rest
         (case compile_value sep P key v of None \<Rightarrow> acc | Some c \<Rightarrow> AList.update key c acc)"
proof (cases v)
  case (Atom a)
  then show ?thesis by (cases a) simp_all
qed (simp_all add: processSchemaLevel_def)

lemma process_entries_lookup:
  "distinct (map fst es) \<Longrightarrow> (k, v) \<in> set es \<Longrightarrow>
   map_of (process_entries sep P es acc) k
     = (case compile_value sep P k v of None \<Rightarrow> map_of acc k | Some c \<Rightarrow> Some c)"
proof (induction es arbitrary: acc)
  case Nil
  then show ?case by simp
next
  case (Cons e es)
  obtain key w where e: "e = (key, w)" by (cases e)
  show ?case
  proof (cases "(k, v) = e")
    case True
    then have "k \<notin> fst ` set es" using Cons.prems e by auto
    then show ?thesis using True e
      by (simp add: process_entries_step process_entries_other update_conv'
               del: process_entries.simps split: option.splits)
  next
    case False
    then have mem: "(k, v) \<in> set es" and ne: "k \<noteq> key"
      using Cons.prems e by (auto simp: rev_image_eqI)
    have d: "distinct (map fst es)" using Cons.prems by simp
    show ?thesis
      unfolding e process_entries_step Cons.IH [OF d mem]
      using ne by (simp add: update_conv' split: option.splits)
  qed
qed

lemma processSchemaLevel_lookup:
  "distinct (map fst es) \<Longrightarrow> (k, v) \<in> set es \<Longrightarrow>
   map_of (processSchemaLevel sep es P) k = compile_value sep P k v"
  by (simp add: processSchemaLevel_def process_entries_lookup split: option.splits)

lemma param_loop_resolved:
  "(\<forall>ph \<in> set phs. \<not> nullish (arg_value a (ph_name ph))) \<Longrightarrow>
   param_loop sep P k a phs acc = Inr (acc @ param_values a phs)"
  by (induction sep P k a phs acc rule: param_loop.induct) (auto simp: Let_def param_values_def)

lemma param_loop_missing:
  "(\<forall>q \<in> set pre. \<not> nullish (arg_value a (ph_name q))) \<Longrightarrow>
   nullish (arg_value a (ph_name ph)) \<Longrightarrow>
   param_loop sep P k a (pre @ ph # post) acc
     = Inl (missing_parameter (ph_name ph) (join sep (P @ [k])))"
  by (induction sep P k a pre acc rule: param_loop.induct) (auto simp: Let_def)

lemma param_loop_sep:
  "param_loop s P k a phs acc = Inr vs \<Longrightarrow> param_loop s' P k a phs acc = Inr vs"
  by (induction s P k a phs acc rule: param_loop.induct) (auto simp: Let_def split: if_splits)

lemma builder_loop_sep:
  "builder_loop s full a rest acc = Inr ts \<Longrightarrow> builder_loop s' full' a rest acc = Inr ts"
  by (induction s full a rest acc rule: builder_loop.induct) (auto simp: Let_def split: if_splits)

section \<open>Replacing the separator\<close>

lemma resep_Level: "resep s (Level t) = Level (retree s t)"
  by (simp add: retree_def)

lemma retree_Nil: "retree s [] = []"
  by (simp add: retree_def)

lemma retree_update:
  "retree s (AList.update k c t) = AList.update k (resep s c) (retree s t)"
  unfolding retree_def by (induction t) auto

lemma leaf_resep: "resep s (leaf s0 P d) = leaf s P d"
  by (simp add: leaf_def Let_def)

lemma process_entries_resep:
  "retree s (process_entries s0 P es acc) = process_entries s P es (retree s acc)"
proof (induction s0 P es acc rule: process_entries.induct)
  case (3 s0 P key phs sub rest acc)
  from "3.IH" show ?case
    by (simp add: retree_update)
next
  case (4 s0 P key d rest acc)
  from "4.IH" show ?case
    by (simp add: retree_update leaf_resep)
next
  case (5 s0 P key sub rest acc)
  from "5.IH"(2) "5.IH"(1) show ?case
    by (simp add: retree_update resep_Level retree_Nil del: resep.simps)
qed simp_all

lemma processSchemaLevel_resep:
  "retree s (processSchemaLevel s0 es P) = processSchemaLevel s es P"
  by (simp add: processSchemaLevel_def process_entries_resep retree_Nil)

lemma map_of_retree:
  "map_of (retree s t) k = map_option (resep s) (map_of t k)"
  unfolding retree_def by (induction t) auto

lemma parameterizerFunc_resep:
  assumes "parameterizerFunc s0 P k phs sub a = Inr t"
  shows "parameterizerFunc s P k phs sub a = Inr (retree s t)"
proof -
  from assms obtain vs where vs: "param_loop s0 P k a (placeholdersArray phs) [] = Inr vs"
    and t: "t = processSchemaLevel s0 sub (P @ [k] @ vs)"
    by (auto simp: parameterizerFunc_def split: sum.splits)
  from param_loop_sep [OF vs, of s] t show ?thesis
    by (simp add: parameterizerFunc_def processSchemaLevel_resep)
qed

lemma invoke_resep_Tree:
  assumes "invoke c a = Some (Inr (Tree t))"
  shows "invoke (resep s c) a = Some (Inr (Tree (retree s t)))"
proof (cases c)
  case (LeafNoArgs s0 full)
  with assms show ?thesis by (cases "builder s0 full None") auto
next
  case (LeafArgs s0 full)
  with assms show ?thesis by (cases "builder s0 full a") auto
next
  case (ParameterizingFunction s0 P k phs sub)
  with assms have "parameterizerFunc s0 P k phs sub a = Inr t"
    by (cases "parameterizerFunc s0 P k phs sub a") auto
  from parameterizerFunc_resep [OF this, of s] ParameterizingFunction show ?thesis by simp
next
  case (Level t)
  with assms show ?thesis by simp
qed

lemma access_Get:
  "access c (Get k # rest) = Some r \<Longrightarrow>
   \<exists>t c'. c = Level t \<and> map_of t k = Some c' \<and> access c' rest = Some r"
  by (cases c) (auto split: option.splits)

lemma resep_createKeyBuilder:
  "resep s (Level (defineSchema s0 es)) = Level (defineSchema s es)"
  by (simp add: resep_Level defineSchema_def processSchemaLevel_resep del: resep.simps)

lemma configured_separator_Some [simp]:
  "configured_separator (Some \<lparr>separator = Some sep\<rparr>) = sep"
  by (simp add: configured_separator_def)

lemma configured_separator_None [simp]: "configured_separator None = '':''"
  by (simp add: configured_separator_def)

section \<open>More facts about the traversal and the two kinds of function\<close>

lemma access_leaf:
  assumes "distinct (map fst s)" and "(k, KeyDefinition d) \<in> set s"
  shows "access (Level (processSchemaLevel sep s P)) (Get k # Call a # rest)
     = (case invoke (leaf sep P d) a of
          None \<Rightarrow> None
        | Some (Inl e) \<Rightarrow> Some (Inl e)
        | Some (Inr (Key out)) \<Rightarrow> (if rest = [] then Some (Inr out) else None)
        | Some (Inr (Tree t)) \<Rightarrow> access (Level t) rest)"
  using processSchemaLevel_lookup [OF assms, of sep P] by simp

lemma parameterizerFunc_resolved:
  assumes "\<forall>ph \<in> set (placeholdersArray phs). \<not> nullish (arg_value a (ph_name ph))"
  shows "parameterizerFunc sep P k phs sub a
     = Inr (processSchemaLevel sep sub (P @ [k] @ param_values a (placeholdersArray phs)))"
  by (simp add: parameterizerFunc_def param_loop_resolved [OF assms])

lemma parameterizerFunc_missing:
  assumes "placeholdersArray phs = pre @ ph # post"
    and "\<forall>q \<in> set pre. \<not> nullish (arg_value a (ph_name q))"
    and "nullish (arg_value a (ph_name ph))"
  shows "parameterizerFunc sep P k phs sub a
     = Inl (missing_parameter (ph_name ph) (join sep (P @ [k])))"
  by (simp add: parameterizerFunc_def assms(1) param_loop_missing [OF assms(2,3)])

lemma process_entries_append:
  "process_entries sep P (xs @ ys) acc = process_entries sep P ys (process_entries sep P xs acc)"
proof (induction xs arbitrary: acc)
  case Nil
  then show ?case by simp
next
  case (Cons e xs)
  obtain key w where e: "e = (key, w)" by (cases e)
  show ?case
    unfolding e append_Cons process_entries_step Cons.IH ..
qed

lemma process_entries_Atom:
  "process_entries sep P ((k, Atom v) # rest) acc = process_entries sep P rest acc"
  by (simp add: process_entries_step del: process_entries.simps)

lemma processSchemaLevel_keys:
  "k \<notin> fst ` set es \<Longrightarrow> k \<notin> fst ` set (processSchemaLevel sep es P)"
  using process_entries_other [of k es sep P "[]"]
  by (simp add: processSchemaLevel_def map_of_eq_None_iff)

lemma builder_loop_sep_error:
  "builder_loop s full a rest acc = Inl e \<Longrightarrow> \<exists>e'. builder_loop s' full' a rest acc = Inl e'"
  by (induction s full a rest acc rule: builder_loop.induct) (auto simp: Let_def split: if_splits)

lemma param_loop_sep_error:
  "param_loop s P k a phs acc = Inl e \<Longrightarrow> \<exists>e'. param_loop s' P k a phs acc = Inl e'"
  by (induction s P k a phs acc rule: param_loop.induct) (auto simp: Let_def split: if_splits)

lemma invoke_resep_error:
  assumes "invoke c a = Some (Inl e)"
  shows "\<exists>e'. invoke (resep s c) a = Some (Inl e')"
proof (cases c)
  case (LeafNoArgs s0 full)
  with assms obtain e0 where "builder_loop s0 full None full [] = Inl e0"
    by (auto simp: builder_def split: sum.splits)
  from builder_loop_sep_error [OF this, of s full] LeafNoArgs show ?thesis
    by (auto simp: builder_def)
next
  case (LeafArgs s0 full)
  with assms obtain e0 where "builder_loop s0 full a full [] = Inl e0"
    by (auto simp: builder_def split: sum.splits)
  from builder_loop_sep_error [OF this, of s full] LeafArgs show ?thesis
    by (auto simp: builder_def)
next
  case (ParameterizingFunction s0 P k phs sub)
  with assms obtain e0 where "param_loop s0 P k a (placeholdersArray phs) [] = Inl e0"
    by (auto simp: parameterizerFunc_def split: sum.splits)
  from param_loop_sep_error [OF this, of s] ParameterizingFunction show ?thesis
    by (auto simp: parameterizerFunc_def)
next
  case (Level t)
  with assms show ?thesis by simp
qed

lemma access_Call_error:
  "access c (Call a # rest) = Some (Inl e) \<Longrightarrow>
   invoke c a = Some (Inl e) \<or>
   (\<exists>t. invoke c a = Some (Inr (Tree t)) \<and> access (Level t) rest = Some (Inl e))"
  by (auto split: option.splits sum.splits outcome.splits if_splits)

lemma access_resep_error:
  "access c path = Some (Inl e) \<Longrightarrow> \<exists>e'. access (resep s c) path = Some (Inl e')"
proof (induction path arbitrary: c)
  case Nil
  then show ?case by simp
next
  case (Cons st rest)
  show ?case
  proof (cases st)
    case (Get k)
    with Cons.prems obtain t c' where c: "c = Level t" and k: "map_of t k = Some c'"
      and acc: "access c' rest = Some (Inl e)"
      by (blast dest: access_Get)
    from Cons.IH [OF acc] obtain e' where "access (resep s c') rest = Some (Inl e')" by blast
    then have "access (resep s c) (st # rest) = Some (Inl e')"
      using c k Get by (simp add: resep_Level map_of_retree del: resep.simps)
    then show ?thesis by blast
  next
    case (Call a)
    with Cons.prems consider
      (err) "invoke c a = Some (Inl e)"
      | (tree) t where "invoke c a = Some (Inr (Tree t))" "access (Level t) rest = Some (Inl e)"
      by (blast dest: access_Call_error)
    then show ?thesis
    proof cases
      case err
      from invoke_resep_error [OF err, of s] Call show ?thesis by auto
    next
      case tree
      from Cons.IH [OF tree(2)] obtain e' where
        "access (resep s (Level t)) rest = Some (Inl e')" by blast
      then have "access (resep s c) (st # rest) = Some (Inl e')"
        using invoke_resep_Tree [OF tree(1), of s] Call
        by (simp add: resep_Level del: resep.simps)
      then show ?thesis by blast
    qed
  qed
qed

lemma join_Cons: "join sep (x # xs) = (if xs = [] then x else x @ sep @ join sep xs)"
  by (cases xs) simp_all

lemma join_append_empty:
  "join sep (xs @ [] # ys)
     = (if xs = [] then [] else join sep xs @ sep) @ (if ys = [] then [] else sep @ join sep ys)"
  by (induction xs) (auto simp: join_Cons)

lemma join_concat:
  "join sep ts = (if ts = [] then [] else concat (map (\<lambda>t. t @ sep) (butlast ts)) @ last ts)"
  by (induction sep ts rule: join.induct) simp_all

lemma retree_idem: "retree s (processSchemaLevel s es P) = processSchemaLevel s es P"
  by (rule processSchemaLevel_resep)

lemma access_key_parts:
  "access (resep s c) path = map_option (map_sum id (join s)) (key_parts (resep s c) path)"
proof (induction path arbitrary: c)
  case Nil
  then show ?case by simp
next
  case (Cons st rest)
  show ?case
  proof (cases st)
    case (Get k)
    show ?thesis
    proof (cases c)
      case (Level t)
      show ?thesis
      proof (cases "map_of t k")
        case None
        then show ?thesis using Get Level
          by (simp add: resep_Level map_of_retree del: resep.simps)
      next
        case (Some c')
        then show ?thesis using Get Level Cons.IH [of c']
          by (simp add: resep_Level map_of_retree del: resep.simps)
      qed
    qed (simp_all add: Get)
  next
    case (Call a)
    show ?thesis
    proof (cases c)
      case (LeafNoArgs s0 full)
      then show ?thesis using Call
        by (cases "builder_loop s full None full []") (simp_all add: builder_def)
    next
      case (LeafArgs s0 full)
      then show ?thesis using Call
        by (cases "builder_loop s full a full []") (simp_all add: builder_def)
    next
      case (ParameterizingFunction s0 P k phs sub)
      show ?thesis
      proof (cases "parameterizerFunc s P k phs sub a")
        case (Inl e)
        then show ?thesis using Call ParameterizingFunction by simp
      next
        case (Inr t)
        then obtain vs where "t = processSchemaLevel s sub (P @ [k] @ vs)"
          by (auto simp: parameterizerFunc_def split: sum.splits)
        then have "Level t = resep s (Level t)"
          by (simp add: resep_Level retree_idem del: resep.simps)
        then show ?thesis using Call ParameterizingFunction Inr Cons.IH [of "Level t"]
          by simp
      qed
    next
      case (Level t)
      then show ?thesis using Call by simp
    qed
  qed
qed

lemma key_parts_Get:
  "key_parts c (Get k # rest) = Some r \<Longrightarrow>
   \<exists>t c'. c = Level t \<and> map_of t k = Some c' \<and> key_parts c' rest = Some r"
  by (cases c) (auto split: option.splits)

lemma key_parts_resep:
  "key_parts c path = Some (Inr tokens) \<Longrightarrow> key_parts (resep s c) path = Some (Inr tokens)"
proof (induction path arbitrary: c)
  case Nil
  then show ?case by simp
next
  case (Cons st rest)
  show ?case
  proof (cases st)
    case (Get k)
    with Cons.prems obtain t c' where c: "c = Level t" and k: "map_of t k = Some c'"
      and kp: "key_parts c' rest = Some (Inr tokens)"
      by (blast dest: key_parts_Get)
    from Cons.IH [OF kp] show ?thesis
      using c k Get by (simp add: resep_Level map_of_retree del: resep.simps)
  next
    case (Call a)
    show ?thesis
    proof (cases c)
      case (LeafNoArgs s0 full)
      with Cons.prems Call have "builder_loop s0 full None full [] = Inr tokens" and "rest = []"
        by (auto split: sum.splits if_splits)
      then show ?thesis
        using builder_loop_sep [of s0 full None full "[]" tokens s full] Call LeafNoArgs by simp
    next
      case (LeafArgs s0 full)
      with Cons.prems Call have "builder_loop s0 full a full [] = Inr tokens" and "rest = []"
        by (auto split: sum.splits if_splits)
      then show ?thesis
        using builder_loop_sep [of s0 full a full "[]" tokens s full] Call LeafArgs by simp
    next
      case (ParameterizingFunction s0 P k phs sub)
      with Cons.prems Call obtain t where t: "parameterizerFunc s0 P k phs sub a = Inr t"
        and kp: "key_parts (Level t) rest = Some (Inr tokens)"
        by (auto split: sum.splits)
      from Cons.IH [OF kp] have "key_parts (Level (retree s t)) rest = Some (Inr tokens)"
        by (simp add: resep_Level del: resep.simps)
      with parameterizerFunc_resep [OF t, of s] show ?thesis
        using Call ParameterizingFunction by simp
    next
      case (Level t)
      with Cons.prems Call show ?thesis by simp
    qed
  qed
qed

text \<open>
  What the two functions report when a property read does come back \<^verbatim>\<open>undefined\<close> or
  \<^verbatim>\<open>null\<close>: the first such placeholder, in path order for a leaf and in declared order
  for a parameterized node, with the message of the source written out.
\<close>

lemma leaf_reports_first_unresolved:
  assumes "distinct (map fst schemaLevel)"
    and "(k, KeyDefinition (pre @ Ph ph # post)) \<in> set schemaLevel"
    and "resolved a pre"
    and "nullish (arg_value a (ph_name ph))"
  shows "\<exists>c. map_of (processSchemaLevel sep schemaLevel P) k = Some c
           \<and> invoke c a = Some (Inl (Error
                (''[RedisKeyBuilder] Missing value for argument placeholder '' @ [CHR 0x22]
                 @ ph_name ph @ [CHR 0x22] @ '' when building key like '' @ [CHR 0x22]
                 @ join sep (P @ map (\<lambda>pt. case pt of Lit s \<Rightarrow> s | Ph q \<Rightarrow> ph_name q)
                                     (pre @ Ph ph # post))
                 @ [CHR 0x22] @ ''.'')))"
proof -
  have "map_of (processSchemaLevel sep schemaLevel P) k = Some (leaf sep P (pre @ Ph ph # post))"
    using processSchemaLevel_lookup [OF assms(1,2)] by simp
  moreover have "hint_segment = (\<lambda>pt. case pt of Lit s \<Rightarrow> s | Ph q \<Rightarrow> ph_name q)"
    by (rule ext) (simp split: part.splits)
  ultimately show ?thesis
    using invoke_leaf_missing [OF assms(3,4), of sep P post]
    by (simp add: missing_argument_def dq_def)
qed

lemma parameterizer_reports_first_unresolved:
  assumes "distinct (map fst schemaLevel)"
    and "(k, Parameterized phs sub) \<in> set schemaLevel"
    and "placeholdersArray phs = pre @ ph # post"
    and "\<forall>q \<in> set pre. \<not> nullish (arg_value a (ph_name q))"
    and "nullish (arg_value a (ph_name ph))"
  shows "\<exists>f. map_of (processSchemaLevel sep schemaLevel P) k = Some f
           \<and> invoke f a = Some (Inl (Error
                (''[RedisKeyBuilder] Missing value for path parameter '' @ [CHR 0x22]
                 @ ph_name ph @ [CHR 0x22] @ '' required by '' @ [CHR 0x22]
                 @ join sep (P @ [k]) @ [CHR 0x22] @ ''.'')))"
proof -
  have "map_of (processSchemaLevel sep schemaLevel P) k
      = Some (ParameterizingFunction sep P k phs sub)"
    using processSchemaLevel_lookup [OF assms(1,2)] by simp
  then show ?thesis
    using parameterizerFunc_missing [OF assms(3,4,5)]
    by (simp add: missing_parameter_def dq_def)
qed

section \<open>Claims\<close>

text \<open>
  C1. A key definition stored under key \<open>k\<close> at a level reached with prefix \<open>P\<close> compiles
  to a leaf whose path is \<open>P\<close> followed by the definition's own parts, and the key it
  builds is the join of \<open>P\<close> and the tokens of those parts, in order: \<open>k\<close> is not
  inserted. By contrast a nested schema under \<open>k'\<close> is compiled with prefix \<open>P @ [k']\<close>,
  and the parameterizing function under \<open>k''\<close> compiles its schema with prefix
  \<open>P @ [k'']\<close> followed by the parameter values.
\<close>

theorem key_definition_path:
  assumes "distinct (map fst schemaLevel)"
  shows "((k, KeyDefinition d) \<in> set schemaLevel \<and> resolved a d \<longrightarrow>
           (\<exists>c. map_of (processSchemaLevel sep schemaLevel P) k = Some c
              \<and> (c = LeafNoArgs sep (map Lit P @ d) \<or> c = LeafArgs sep (map Lit P @ d))
              \<and> invoke c a = Some (Inr (Key (join sep (P @ map (token a) d))))))
       \<and> ((k', NestedSchema sub) \<in> set schemaLevel \<longrightarrow>
            map_of (processSchemaLevel sep schemaLevel P) k'
              = Some (Level (processSchemaLevel sep sub (P @ [k']))))
       \<and> ((k'', Parameterized phs sub') \<in> set schemaLevel
            \<and> (\<forall>ph \<in> set (placeholdersArray phs). \<not> nullish (arg_value a' (ph_name ph))) \<longrightarrow>
            (\<exists>f. map_of (processSchemaLevel sep schemaLevel P) k'' = Some f
               \<and> invoke f a' = Some (Inr (Tree (processSchemaLevel sep sub'
                    (P @ [k''] @ param_values a' (placeholdersArray phs)))))))"
proof (intro conjI impI)
  assume h: "(k, KeyDefinition d) \<in> set schemaLevel \<and> resolved a d"
  then have "map_of (processSchemaLevel sep schemaLevel P) k = Some (leaf sep P d)"
    using processSchemaLevel_lookup [OF assms, of k "KeyDefinition d"] by simp
  moreover have "leaf sep P d = LeafNoArgs sep (map Lit P @ d)
      \<or> leaf sep P d = LeafArgs sep (map Lit P @ d)"
    by (simp add: leaf_def Let_def)
  moreover have "invoke (leaf sep P d) a = Some (Inr (Key (join sep (P @ map (token a) d))))"
    using h by (simp add: invoke_leaf_resolved)
  ultimately show "\<exists>c. map_of (processSchemaLevel sep schemaLevel P) k = Some c
              \<and> (c = LeafNoArgs sep (map Lit P @ d) \<or> c = LeafArgs sep (map Lit P @ d))
              \<and> invoke c a = Some (Inr (Key (join sep (P @ map (token a) d))))"
    by simp
next
  assume "(k', NestedSchema sub) \<in> set schemaLevel"
  then show "map_of (processSchemaLevel sep schemaLevel P) k'
              = Some (Level (processSchemaLevel sep sub (P @ [k'])))"
    using processSchemaLevel_lookup [OF assms, of k' "NestedSchema sub"] by simp
next
  assume h: "(k'', Parameterized phs sub') \<in> set schemaLevel
            \<and> (\<forall>ph \<in> set (placeholdersArray phs). \<not> nullish (arg_value a' (ph_name ph)))"
  then have "map_of (processSchemaLevel sep schemaLevel P) k''
              = Some (ParameterizingFunction sep P k'' phs sub')"
    using processSchemaLevel_lookup [OF assms, of k'' "Parameterized phs sub'"] by simp
  moreover have "parameterizerFunc sep P k'' phs sub' a'
      = Inr (processSchemaLevel sep sub' (P @ [k''] @ param_values a' (placeholdersArray phs)))"
    using h by (simp add: parameterizerFunc_resolved)
  ultimately show "\<exists>f. map_of (processSchemaLevel sep schemaLevel P) k'' = Some f
               \<and> invoke f a' = Some (Inr (Tree (processSchemaLevel sep sub'
                    (P @ [k''] @ param_values a' (placeholdersArray phs)))))"
    by simp
qed

theorem key_definition_path_witness:
  "distinct (map fst
      [(''appConfig'', KeyDefinition [Lit ''config'']),
       (''users'', NestedSchema [(''all'', KeyDefinition [Lit ''all''])]),
       (''user'', Parameterized (Single (p ''userId'')) [(''profile'', KeyDefinition [Lit ''profile''])])])
   \<and> resolved None [Lit ''config'']
   \<and> (\<exists>c. map_of (processSchemaLevel '':''
      [(''appConfig'', KeyDefinition [Lit ''config'']),
       (''users'', NestedSchema [(''all'', KeyDefinition [Lit ''all''])]),
       (''user'', Parameterized (Single (p ''userId'')) [(''profile'', KeyDefinition [Lit ''profile''])])]
        [''nested'']) ''appConfig'' = Some c
      \<and> invoke c None = Some (Inr (Key ''nested:config'')))
   \<and> map_of (processSchemaLevel '':''
      [(''appConfig'', KeyDefinition [Lit ''config'']),
       (''users'', NestedSchema [(''all'', KeyDefinition [Lit ''all''])]),
       (''user'', Parameterized (Single (p ''userId'')) [(''profile'', KeyDefinition [Lit ''profile''])])]
        [''nested'']) ''users''
      = Some (Level [(''all'', LeafNoArgs '':'' [Lit ''nested'', Lit ''users'', Lit ''all''])])
   \<and> (\<exists>f. map_of (processSchemaLevel '':''
      [(''appConfig'', KeyDefinition [Lit ''config'']),
       (''users'', NestedSchema [(''all'', KeyDefinition [Lit ''all''])]),
       (''user'', Parameterized (Single (p ''userId'')) [(''profile'', KeyDefinition [Lit ''profile''])])]
        [''nested'']) ''user'' = Some f
      \<and> invoke f (Some (object_literal [''userId'' \<mapsto> Str ''u-abc'']))
         = Some (Inr (Tree [(''profile'',
             LeafNoArgs '':'' [Lit ''nested'', Lit ''user'', Lit ''u-abc'', Lit ''profile''])])))"
proof -
  have h1: "distinct (map fst
      [(''appConfig'', KeyDefinition [Lit ''config'']),
       (''users'', NestedSchema [(''all'', KeyDefinition [Lit ''all''])]),
       (''user'', Parameterized (Single (p ''userId'')) [(''profile'', KeyDefinition [Lit ''profile''])])])"
    by simp
  have h2: "resolved None [Lit ''config'']"
    by (simp add: resolved_def)
  have h3: "\<forall>ph \<in> set (placeholdersArray (Single (p ''userId''))).
         \<not> nullish (arg_value (Some (object_literal [''userId'' \<mapsto> Str ''u-abc''])) (ph_name ph))"
    by (simp add: arg_value_def object_literal_def missing_def p_def pBase_def)
  from key_definition_path [OF h1, of
      "''appConfig''" "[Lit ''config'']" None "'':''" "[''nested'']"
      "''users''" "[(''all'', KeyDefinition [Lit ''all''])]"
      "''user''" "Single (p ''userId'')" "[(''profile'', KeyDefinition [Lit ''profile''])]"
      "Some (object_literal [''userId'' \<mapsto> Str ''u-abc''])"]
  show ?thesis using h1 h2 h3
    by (simp add: processSchemaLevel_def leaf_def param_values_def arg_value_def object_literal_def p_def pBase_def)
qed

text \<open>
  C2. For a key definition \<open>[a, p x, b]\<close> at the top level of a schema compiled with
  separator \<open>sep\<close>, calling the leaf with an argument object that binds \<open>x\<close> to a value
  \<open>v\<close> that is neither \<^verbatim>\<open>undefined\<close> nor \<^verbatim>\<open>null\<close> returns \<open>a @ sep @ String v @ sep @ b\<close>.
  With the default separator, the schema \<^verbatim>\<open>{ user: ["user", p("id")] }\<close> called with
  \<^verbatim>\<open>{id: "42"}\<close> gives \<^verbatim>\<open>user:42\<close>.
\<close>

theorem placeholder_round_trip:
  assumes "distinct (map fst s)"
    and "(k, KeyDefinition [Lit a, Ph (p x), Lit b]) \<in> set s"
    and "\<not> missing v"
  shows "access (Level (createKeyBuilder (Some \<lparr>separator = Some sep\<rparr>) s))
           [Get k, Call (Some (Object (m(x \<mapsto> v)) inh))]
         = Some (Inr (a @ sep @ String_js v @ sep @ b))
       \<and> access (Level (createKeyBuilder None
                  [(''user'', KeyDefinition [Lit ''user'', Ph (p ''id'')])]))
           [Get ''user'', Call (Some (object_literal [''id'' \<mapsto> Str ''42'']))]
         = Some (Inr ''user:42'')"
proof
  have r: "resolved (Some (Object (m(x \<mapsto> v)) inh)) [Lit a, Ph (p x), Lit b]"
    using assms(3) by (simp add: resolved_def arg_value_def object_literal_def p_def pBase_def)
  show "access (Level (createKeyBuilder (Some \<lparr>separator = Some sep\<rparr>) s))
           [Get k, Call (Some (Object (m(x \<mapsto> v)) inh))]
         = Some (Inr (a @ sep @ String_js v @ sep @ b))"
    unfolding createKeyBuilder_def defineSchema_def configured_separator_Some
      access_leaf [OF assms(1,2)] invoke_leaf_resolved [OF r]
    by (simp add: arg_value_def object_literal_def p_def pBase_def)
next
  show "access (Level (createKeyBuilder None
                  [(''user'', KeyDefinition [Lit ''user'', Ph (p ''id'')])]))
           [Get ''user'', Call (Some (object_literal [''id'' \<mapsto> Str ''42'']))]
         = Some (Inr ''user:42'')"
    by (simp add: createKeyBuilder_def defineSchema_def processSchemaLevel_def leaf_def
        builder_def arg_value_def object_literal_def p_def pBase_def missing_def)
qed

theorem placeholder_round_trip_witness:
  "distinct (map fst [(''productStock'', KeyDefinition [Lit ''product'', Ph (p ''productId''), Lit ''stock''])])
   \<and> \<not> missing (Num 987)
   \<and> access (Level (createKeyBuilder (Some \<lparr>separator = Some ''->''\<rparr>)
                [(''productStock'', KeyDefinition [Lit ''product'', Ph (p ''productId''), Lit ''stock''])]))
         [Get ''productStock'', Call (Some (object_literal [''productId'' \<mapsto> Num 987]))]
       = Some (Inr ''product->987->stock'')"
  using placeholder_round_trip [of
    "[(''productStock'', KeyDefinition [Lit ''product'', Ph (p ''productId''), Lit ''stock''])]"
    "''productStock''" "''product''" "''productId''" "''stock''" "Num 987" "''->''" Map.empty
    Object_prototype]
  by (simp add: missing_def digits.simps object_literal_def)

text \<open>
  C3. A parameterizing function compiled under key \<open>k\<close> that is given a value for each
  declared placeholder returns the sub-tree compiled from the node's schema with
  prefix \<open>P @ [k] @ values\<close>, the values being the texts of the arguments in declared
  order. The result is the same for two argument objects with the same properties
  written in different orders. For \<^verbatim>\<open>parameterize(p("id"), { leaf: ["x"] })\<close> under key
  \<^verbatim>\<open>k\<close>, the call with \<^verbatim>\<open>{id: "7"}\<close> followed by \<^verbatim>\<open>leaf()\<close> gives \<open>k sep 7 sep x\<close>.
\<close>

theorem parameterization_threading:
  assumes "distinct (map fst schemaLevel)"
    and "(k, Parameterized phs sub) \<in> set schemaLevel"
    and "\<forall>ph \<in> set (placeholdersArray phs). \<not> nullish (arg_value a (ph_name ph))"
  shows "(\<exists>f. map_of (processSchemaLevel sep schemaLevel P) k = Some f
            \<and> invoke f a = Some (Inr (Tree (processSchemaLevel sep sub
                 (P @ [k] @ map (\<lambda>ph. String_of (arg_value a (ph_name ph)))
                                (placeholdersArray phs))))))
       \<and> (\<forall>xs ys. distinct (map fst xs) \<and> distinct (map fst ys) \<and> set xs = set ys \<longrightarrow>
             parameterizerFunc sep P k phs sub (Some (Object (map_of xs) inh))
               = parameterizerFunc sep P k phs sub (Some (Object (map_of ys) inh)))
       \<and> (\<exists>n. parameterize (Given (Single (p ''id''))) (Mapping [(''leaf'', KeyDefinition [Lit ''x''])])
                 = Inr n
              \<and> access (Level (defineSchema sep [(''k'', n)]))
                   [Get ''k'', Call (Some (object_literal [''id'' \<mapsto> Str ''7''])), Get ''leaf'', Call None]
                 = Some (Inr (''k'' @ sep @ ''7'' @ sep @ ''x'')))"
proof (intro conjI)
  have "map_of (processSchemaLevel sep schemaLevel P) k
      = Some (ParameterizingFunction sep P k phs sub)"
    using processSchemaLevel_lookup [OF assms(1,2)] by simp
  moreover have "invoke (ParameterizingFunction sep P k phs sub) a
      = Some (Inr (Tree (processSchemaLevel sep sub
                 (P @ [k] @ map (\<lambda>ph. String_of (arg_value a (ph_name ph)))
                                (placeholdersArray phs)))))"
    using parameterizerFunc_resolved [OF assms(3)] by (simp add: param_values_def)
  ultimately show "\<exists>f. map_of (processSchemaLevel sep schemaLevel P) k = Some f
            \<and> invoke f a = Some (Inr (Tree (processSchemaLevel sep sub
                 (P @ [k] @ map (\<lambda>ph. String_of (arg_value a (ph_name ph)))
                                (placeholdersArray phs)))))"
    by simp
next
  show "\<forall>xs ys. distinct (map fst xs) \<and> distinct (map fst ys) \<and> set xs = set ys \<longrightarrow>
             parameterizerFunc sep P k phs sub (Some (Object (map_of xs) inh))
               = parameterizerFunc sep P k phs sub (Some (Object (map_of ys) inh))"
    by (metis map_of_inject_set)
next
  show "\<exists>n. parameterize (Given (Single (p ''id''))) (Mapping [(''leaf'', KeyDefinition [Lit ''x''])])
                 = Inr n
              \<and> access (Level (defineSchema sep [(''k'', n)]))
                   [Get ''k'', Call (Some (object_literal [''id'' \<mapsto> Str ''7''])), Get ''leaf'', Call None]
                 = Some (Inr (''k'' @ sep @ ''7'' @ sep @ ''x''))"
    by (simp add: defineSchema_def processSchemaLevel_def leaf_def builder_def
        parameterizerFunc_def arg_value_def object_literal_def p_def pBase_def missing_def)
qed

theorem parameterization_threading_witness:
  "distinct (map fst [(''tenantResource'',
        Parameterized (Tuple [p ''a'', p_number ''b'']) [(''config'', KeyDefinition [Lit ''config''])])])
   \<and> (\<exists>f. map_of (processSchemaLevel '':''
              [(''tenantResource'',
                Parameterized (Tuple [p ''a'', p_number ''b'']) [(''config'', KeyDefinition [Lit ''config''])])]
              [''param'']) ''tenantResource'' = Some f
          \<and> invoke f (Some (object_literal (map_of [(''b'', Num 1), (''a'', Str ''z'')])))
             = Some (Inr (Tree [(''config'',
                 LeafNoArgs '':'' [Lit ''param'', Lit ''tenantResource'', Lit ''z'', Lit ''1'', Lit ''config''])])))
   \<and> parameterizerFunc '':'' [''param''] ''tenantResource'' (Tuple [p ''a'', p_number ''b''])
        [(''config'', KeyDefinition [Lit ''config''])] (Some (object_literal (map_of [(''b'', Num 1), (''a'', Str ''z'')])))
     = parameterizerFunc '':'' [''param''] ''tenantResource'' (Tuple [p ''a'', p_number ''b''])
        [(''config'', KeyDefinition [Lit ''config''])] (Some (object_literal (map_of [(''a'', Str ''z''), (''b'', Num 1)])))"
proof -
  have h1: "distinct (map fst [(''tenantResource'',
        Parameterized (Tuple [p ''a'', p_number ''b'']) [(''config'', KeyDefinition [Lit ''config''])])])"
    by simp
  have h2: "(''tenantResource'',
        Parameterized (Tuple [p ''a'', p_number ''b'']) [(''config'', KeyDefinition [Lit ''config''])])
      \<in> set [(''tenantResource'',
        Parameterized (Tuple [p ''a'', p_number ''b'']) [(''config'', KeyDefinition [Lit ''config''])])]"
    by simp
  have h3: "\<forall>ph \<in> set (placeholdersArray (Tuple [p ''a'', p_number ''b''])).
         \<not> nullish (arg_value (Some (object_literal (map_of [(''b'', Num 1), (''a'', Str ''z'')]))) (ph_name ph))"
    by (simp add: arg_value_def object_literal_def missing_def p_def p_number_def pBase_def)
  have h4: "distinct (map fst [(''b'', Num 1), (''a'', Str ''z'')])
      \<and> distinct (map fst [(''a'', Str ''z''), (''b'', Num 1)])
      \<and> set [(''b'', Num 1), (''a'', Str ''z'')] = set [(''a'', Str ''z''), (''b'', Num 1)]"
    by auto
  from parameterization_threading [OF h1 h2 h3, of "'':''" "[''param'']" Object_prototype]
  show ?thesis
    using h1 h3 h4
    apply (intro conjI)
       apply simp
      apply simp
     apply (simp add: processSchemaLevel_def leaf_def arg_value_def object_literal_def p_def p_number_def pBase_def digits.simps)
    apply (unfold object_literal_def)
    apply blast
    done
qed

text \<open>
  C4. The specified behaviour is the missing-argument error, naming the first
  unresolved placeholder of the path, whenever the argument object has no value for a
  placeholder. The leaf reads the argument with
  \<^verbatim>\<open>args?.[placeholder._name]\<close>, which also finds what the object inherits, so a
  placeholder named like a property of \<^verbatim>\<open>Object.prototype\<close> counts as supplied by every
  object literal. The schema \<^verbatim>\<open>{ a: ["a", p("toString")] }\<close> called with \<^verbatim>\<open>{}\<close> returns a
  key made of the text of the inherited function instead of failing, and the leaf
  \<^verbatim>\<open>[p("toString"), p("id")]\<close> called with \<^verbatim>\<open>{}\<close> fails naming \<^verbatim>\<open>id\<close>, the second
  placeholder. For names that nothing inherits the leaf behaves as specified: with
  \<^verbatim>\<open>[p("n1"), p("n2")]\<close> and \<^verbatim>\<open>{}\<close> the error names \<^verbatim>\<open>n1\<close> and renders the path
  \<^verbatim>\<open>n1:n2\<close>.
\<close>

theorem missing_argument_inherited_name:
  "access (Level (createKeyBuilder None [(''a'', KeyDefinition [Lit ''a'', Ph (p ''toString'')])]))
       [Get ''a'', Call (Some (object_literal Map.empty))]
     = Some (Inr ''a:function toString() { [native code] }'')
   \<and> builder '':'' [Ph (p ''toString''), Ph (p ''id'')] (Some (object_literal Map.empty))
     = Inl (Error (''[RedisKeyBuilder] Missing value for argument placeholder '' @ [CHR 0x22]
                   @ ''id'' @ [CHR 0x22] @ '' when building key like '' @ [CHR 0x22]
                   @ ''toString:id'' @ [CHR 0x22] @ ''.''))
   \<and> builder '':'' [Ph (p ''n1''), Ph (p ''n2'')] (Some (object_literal Map.empty))
     = Inl (Error (''[RedisKeyBuilder] Missing value for argument placeholder '' @ [CHR 0x22]
                   @ ''n1'' @ [CHR 0x22] @ '' when building key like '' @ [CHR 0x22]
                   @ ''n1:n2'' @ [CHR 0x22] @ ''.''))"
  by (simp add: createKeyBuilder_def defineSchema_def processSchemaLevel_def leaf_def
      builder_def keyPathHint_def missing_argument_def dq_def arg_value_def object_literal_def
      Object_prototype_def native_def missing_def p_def pBase_def)

text \<open>
  C5. The specified behaviour is the missing-parameter error, naming the first
  unresolved declared placeholder, whenever the argument object has no value for a
  declared placeholder. The parameterizing function reads the argument
  with \<^verbatim>\<open>paramArgs?.[ph._name]\<close>, which also finds what the object inherits. The node
  \<^verbatim>\<open>parameterize(p("constructor"), { leaf: ["x"] })\<close> under key \<^verbatim>\<open>u\<close> called with \<^verbatim>\<open>{}\<close>
  returns a sub-tree whose prefix holds the text of the inherited function instead of
  failing, and \<^verbatim>\<open>parameterize([p("valueOf"), p("id")], ...)\<close> called with \<^verbatim>\<open>{}\<close> fails
  naming \<^verbatim>\<open>id\<close>, the second declared placeholder. For names that nothing inherits the
  function behaves as specified: with \<^verbatim>\<open>[p("tenantId"), p("resourceId")]\<close> and
  \<^verbatim>\<open>{tenantId: "t"}\<close> under prefix \<^verbatim>\<open>param\<close> the error names \<^verbatim>\<open>resourceId\<close> and the path
  \<^verbatim>\<open>param:u\<close>.
\<close>

theorem missing_parameter_inherited_name:
  "access (Level (createKeyBuilder None
       [(''u'', Parameterized (Single (p ''constructor'')) [(''leaf'', KeyDefinition [Lit ''x''])])]))
       [Get ''u'', Call (Some (object_literal Map.empty)), Get ''leaf'', Call None]
     = Some (Inr ''u:function Object() { [native code] }:x'')
   \<and> parameterizerFunc '':'' [] ''u'' (Tuple [p ''valueOf'', p ''id''])
       [(''leaf'', KeyDefinition [Lit ''x''])] (Some (object_literal Map.empty))
     = Inl (Error (''[RedisKeyBuilder] Missing value for path parameter '' @ [CHR 0x22]
                   @ ''id'' @ [CHR 0x22] @ '' required by '' @ [CHR 0x22]
                   @ ''u'' @ [CHR 0x22] @ ''.''))
   \<and> parameterizerFunc '':'' [''param''] ''u'' (Tuple [p ''tenantId'', p_number ''resourceId''])
       [(''leaf'', KeyDefinition [Lit ''x''])] (Some (object_literal [''tenantId'' \<mapsto> Str ''t'']))
     = Inl (Error (''[RedisKeyBuilder] Missing value for path parameter '' @ [CHR 0x22]
                   @ ''resourceId'' @ [CHR 0x22] @ '' required by '' @ [CHR 0x22]
                   @ ''param:u'' @ [CHR 0x22] @ ''.''))"
  by (simp add: createKeyBuilder_def defineSchema_def processSchemaLevel_def leaf_def
      builder_def parameterizerFunc_def missing_parameter_def dq_def arg_value_def
      object_literal_def Object_prototype_def native_def missing_def p_def p_number_def pBase_def)

text \<open>
  C6. \<^verbatim>\<open>parameterize\<close> fails with the placeholder error exactly when the placeholder
  argument is absent, null or an empty array; it fails with the schema error exactly
  when the placeholder argument is acceptable and the schema argument is not a mapping
  object; in every other case it returns the parameterized node holding both arguments
  unchanged. It does not call the compiler.
\<close>

theorem parameterize_validation:
  "(parameterize ph s = Inl placeholder_required
      \<longleftrightarrow> ph = NoPlaceholder \<or> ph = NullPlaceholder \<or> ph = Given (Tuple []))
   \<and> (parameterize ph s = Inl schema_required
      \<longleftrightarrow> \<not> (ph = NoPlaceholder \<or> ph = NullPlaceholder \<or> ph = Given (Tuple []))
          \<and> (\<forall>m. s \<noteq> Mapping m))
   \<and> (\<forall>phs m. ph = Given phs \<and> phs \<noteq> Tuple [] \<and> s = Mapping m
         \<longrightarrow> parameterize ph s = Inr (Parameterized phs m))
   \<and> parameterize (Given (Tuple [])) (Mapping m0) = Inl placeholder_required
   \<and> parameterize (Given (Single (p x))) (NotAnObject (Str ''not-an-object'')) = Inl schema_required"
proof -
  have ne: "placeholder_required \<noteq> schema_required"
    by (simp add: placeholder_required_def schema_required_def)
  have e: "empty_array phs \<longleftrightarrow> phs = Tuple []" for phs
    by (cases phs) auto
  show ?thesis
  proof (cases ph)
    case NoPlaceholder
    then show ?thesis using ne by simp
  next
    case NullPlaceholder
    then show ?thesis using ne by simp
  next
    case (Given phs)
    then show ?thesis using ne e [of phs]
      by (cases s) (auto simp: e)
  qed
qed

theorem parameterize_validation_witness:
  "parameterize (Given (Tuple [p ''tenantId'', p_number ''resourceId'']))
       (Mapping [(''config'', KeyDefinition [Lit ''config''])])
     = Inr (Parameterized (Tuple [p ''tenantId'', p_number ''resourceId''])
             [(''config'', KeyDefinition [Lit ''config''])])
   \<and> parameterize (Given (Tuple [p ''tenantId'', p_number ''resourceId'']))
       (Mapping [(''config'', KeyDefinition [Lit ''config''])]) \<noteq> Inl placeholder_required"
  using parameterize_validation [of "Given (Tuple [p ''tenantId'', p_number ''resourceId''])"
      "Mapping [(''config'', KeyDefinition [Lit ''config''])]"]
  by simp

text \<open>
  C7. An entry whose value is \<^verbatim>\<open>undefined\<close>, \<^verbatim>\<open>null\<close> or a primitive is skipped: the
  compiled level is the one obtained from the schema without that entry, and it has no
  property of that key. The traversal has no failing branch: \<open>processSchemaLevel\<close>
  returns a tree for every schema.
\<close>

theorem unrecognized_entries_skipped:
  "processSchemaLevel sep (xs @ (k, Atom v) # ys) P = processSchemaLevel sep (xs @ ys) P
   \<and> (k \<notin> fst ` set (xs @ ys) \<longrightarrow>
        k \<notin> fst ` set (processSchemaLevel sep (xs @ (k, Atom v) # ys) P))"
proof
  show eq: "processSchemaLevel sep (xs @ (k, Atom v) # ys) P = processSchemaLevel sep (xs @ ys) P"
    by (simp add: processSchemaLevel_def process_entries_append process_entries_Atom
             del: process_entries.simps)
  show "k \<notin> fst ` set (xs @ ys) \<longrightarrow>
        k \<notin> fst ` set (processSchemaLevel sep (xs @ (k, Atom v) # ys) P)"
    unfolding eq using processSchemaLevel_keys [of k "xs @ ys" sep P] by blast
qed

theorem unrecognized_entries_skipped_witness:
  "''badKey'' \<notin> fst ` set ([(''validKey'', KeyDefinition [Lit ''valid''])] @ [(''other'', Atom Null)])
   \<and> processSchemaLevel '':''
        ([(''validKey'', KeyDefinition [Lit ''valid''])] @ (''badKey'', Atom Undefined) # [(''other'', Atom Null)]) []
      = [(''validKey'', LeafNoArgs '':'' [Lit ''valid''])]
   \<and> ''badKey'' \<notin> fst ` set (processSchemaLevel '':''
        ([(''validKey'', KeyDefinition [Lit ''valid''])] @ (''badKey'', Atom Undefined) # [(''other'', Atom Null)]) [])"
  using unrecognized_entries_skipped [of "'':''" "[(''validKey'', KeyDefinition [Lit ''valid''])]"
      "''badKey''" Undefined "[(''other'', Atom Null)]" "[]"]
  by (simp add: processSchemaLevel_def leaf_def)

text \<open>
  C8. If an access path into the tree compiled with one separator ends in a key, the
  leaf reached has emitted a list of tokens, its \<^verbatim>\<open>keyParts\<close>. For every configured
  separator the same path into the tree compiled from the same schema reaches a leaf
  that emits the same tokens, and the key it returns is these tokens with that
  separator between each two neighbours: \<open>t1 @ sep @ t2 @ sep @ ... @ tn\<close>. So two
  outputs differ in the separators between the tokens and in nothing else. If the path
  ends in an error for one separator, it does for every other.
\<close>

theorem separator_substitution:
  "(access (Level (createKeyBuilder o1 s)) path = Some (Inr out) \<longrightarrow>
      (\<exists>tokens.
          (\<forall>o2. key_parts (Level (createKeyBuilder o2 s)) path = Some (Inr tokens)
              \<and> access (Level (createKeyBuilder o2 s)) path
                  = Some (Inr (join (configured_separator o2) tokens)))
        \<and> (\<forall>sep. access (Level (createKeyBuilder (Some \<lparr>separator = Some sep\<rparr>) s)) path
                  = Some (Inr (if tokens = [] then []
                               else concat (map (\<lambda>t. t @ sep) (butlast tokens)) @ last tokens)))
        \<and> access (Level (createKeyBuilder None s)) path
              = Some (Inr (if tokens = [] then []
                           else concat (map (\<lambda>t. t @ '':'') (butlast tokens)) @ last tokens))))
   \<and> (access (Level (createKeyBuilder o1 s)) path = Some (Inl e) \<longrightarrow>
      (\<forall>o2. \<exists>e'. access (Level (createKeyBuilder o2 s)) path = Some (Inl e')))"
proof (intro conjI impI)
  assume a: "access (Level (createKeyBuilder o1 s)) path = Some (Inr out)"
  have r: "Level (createKeyBuilder opt s)
      = resep (configured_separator opt) (Level (createKeyBuilder o1 s))" for opt
    by (simp add: createKeyBuilder_def resep_createKeyBuilder del: resep.simps)
  have m: "access (Level (createKeyBuilder o1 s)) path
      = map_option (map_sum id (join (configured_separator o1)))
          (key_parts (Level (createKeyBuilder o1 s)) path)"
    using access_key_parts [of "configured_separator o1" "Level (createKeyBuilder o1 s)" path]
    by (simp add: r [of o1, symmetric] del: resep.simps)
  obtain tokens where t: "key_parts (Level (createKeyBuilder o1 s)) path = Some (Inr tokens)"
  proof (cases "key_parts (Level (createKeyBuilder o1 s)) path")
    case None
    with m a show ?thesis by simp
  next
    case (Some y)
    show ?thesis
    proof (cases y)
      case (Inl e0)
      with m a Some show ?thesis by simp
    next
      case (Inr ts)
      with Some that show ?thesis by simp
    qed
  qed
  have k: "key_parts (Level (createKeyBuilder opt s)) path = Some (Inr tokens)" for opt
    unfolding r [of opt] by (rule key_parts_resep [OF t])
  have j: "access (Level (createKeyBuilder opt s)) path
      = Some (Inr (join (configured_separator opt) tokens))" for opt
    using access_key_parts [of "configured_separator opt" "Level (createKeyBuilder o1 s)" path]
      k [of opt]
    unfolding r [of opt] by simp
  have "\<forall>o2. key_parts (Level (createKeyBuilder o2 s)) path = Some (Inr tokens)
              \<and> access (Level (createKeyBuilder o2 s)) path
                  = Some (Inr (join (configured_separator o2) tokens))"
    using k j by blast
  moreover have "\<forall>sep. access (Level (createKeyBuilder (Some \<lparr>separator = Some sep\<rparr>) s)) path
                  = Some (Inr (if tokens = [] then []
                               else concat (map (\<lambda>t. t @ sep) (butlast tokens)) @ last tokens))"
    using j join_concat by simp
  moreover have "access (Level (createKeyBuilder None s)) path
              = Some (Inr (if tokens = [] then []
                           else concat (map (\<lambda>t. t @ '':'') (butlast tokens)) @ last tokens))"
    using j [of None] join_concat [of "'':''" tokens] by simp
  ultimately show "\<exists>tokens.
          (\<forall>o2. key_parts (Level (createKeyBuilder o2 s)) path = Some (Inr tokens)
              \<and> access (Level (createKeyBuilder o2 s)) path
                  = Some (Inr (join (configured_separator o2) tokens)))
        \<and> (\<forall>sep. access (Level (createKeyBuilder (Some \<lparr>separator = Some sep\<rparr>) s)) path
                  = Some (Inr (if tokens = [] then []
                               else concat (map (\<lambda>t. t @ sep) (butlast tokens)) @ last tokens)))
        \<and> access (Level (createKeyBuilder None s)) path
              = Some (Inr (if tokens = [] then []
                           else concat (map (\<lambda>t. t @ '':'') (butlast tokens)) @ last tokens))"
    by blast
next
  assume a: "access (Level (createKeyBuilder o1 s)) path = Some (Inl e)"
  show "\<forall>o2. \<exists>e'. access (Level (createKeyBuilder o2 s)) path = Some (Inl e')"
  proof
    fix o2
    from access_resep_error [OF a, of "configured_separator o2"]
    show "\<exists>e'. access (Level (createKeyBuilder o2 s)) path = Some (Inl e')"
      by (simp add: createKeyBuilder_def resep_createKeyBuilder del: resep.simps)
  qed
qed

theorem separator_substitution_witness:
  "access (Level (createKeyBuilder None
       [(''param'', NestedSchema [(''user'', Parameterized (Single (p ''userId''))
           [(''orders'', NestedSchema [(''byId'', KeyDefinition [Ph (p_number ''orderId'')])])])])]))
     [Get ''param'', Get ''user'', Call (Some (object_literal [''userId'' \<mapsto> Str ''u-sep''])),
      Get ''orders'', Get ''byId'', Call (Some (object_literal [''orderId'' \<mapsto> Num 7]))]
     = Some (Inr ''param:user:u-sep:orders:7'')
   \<and> key_parts (Level (createKeyBuilder None
       [(''param'', NestedSchema [(''user'', Parameterized (Single (p ''userId''))
           [(''orders'', NestedSchema [(''byId'', KeyDefinition [Ph (p_number ''orderId'')])])])])]))
     [Get ''param'', Get ''user'', Call (Some (object_literal [''userId'' \<mapsto> Str ''u-sep''])),
      Get ''orders'', Get ''byId'', Call (Some (object_literal [''orderId'' \<mapsto> Num 7]))]
     = Some (Inr [''param'', ''user'', ''u-sep'', ''orders'', ''7''])
   \<and> key_parts (Level (createKeyBuilder (Some \<lparr>separator = Some ''->''\<rparr>)
       [(''param'', NestedSchema [(''user'', Parameterized (Single (p ''userId''))
           [(''orders'', NestedSchema [(''byId'', KeyDefinition [Ph (p_number ''orderId'')])])])])]))
     [Get ''param'', Get ''user'', Call (Some (object_literal [''userId'' \<mapsto> Str ''u-sep''])),
      Get ''orders'', Get ''byId'', Call (Some (object_literal [''orderId'' \<mapsto> Num 7]))]
     = Some (Inr [''param'', ''user'', ''u-sep'', ''orders'', ''7''])
   \<and> access (Level (createKeyBuilder (Some \<lparr>separator = Some ''->''\<rparr>)
       [(''param'', NestedSchema [(''user'', Parameterized (Single (p ''userId''))
           [(''orders'', NestedSchema [(''byId'', KeyDefinition [Ph (p_number ''orderId'')])])])])]))
     [Get ''param'', Get ''user'', Call (Some (object_literal [''userId'' \<mapsto> Str ''u-sep''])),
      Get ''orders'', Get ''byId'', Call (Some (object_literal [''orderId'' \<mapsto> Num 7]))]
     = Some (Inr ''param->user->u-sep->orders->7'')
   \<and> (\<forall>o2. \<exists>e'. access (Level (createKeyBuilder o2
       [(''param'', NestedSchema [(''user'', Parameterized (Single (p ''userId''))
           [(''orders'', NestedSchema [(''byId'', KeyDefinition [Ph (p_number ''orderId'')])])])])]))
     [Get ''param'', Get ''user'', Call (Some (object_literal [''userId'' \<mapsto> Str ''u-sep''])),
      Get ''orders'', Get ''byId'', Call (Some (object_literal Map.empty))]
     = Some (Inl e'))"
proof -
  have h1: "access (Level (createKeyBuilder None
       [(''param'', NestedSchema [(''user'', Parameterized (Single (p ''userId''))
           [(''orders'', NestedSchema [(''byId'', KeyDefinition [Ph (p_number ''orderId'')])])])])]))
     [Get ''param'', Get ''user'', Call (Some (object_literal [''userId'' \<mapsto> Str ''u-sep''])),
      Get ''orders'', Get ''byId'', Call (Some (object_literal [''orderId'' \<mapsto> Num 7]))]
     = Some (Inr ''param:user:u-sep:orders:7'')"
    by (simp add: createKeyBuilder_def defineSchema_def processSchemaLevel_def leaf_def
        builder_def parameterizerFunc_def arg_value_def object_literal_def missing_def
        p_def p_number_def pBase_def digits.simps)
  have h2: "access (Level (createKeyBuilder None
       [(''param'', NestedSchema [(''user'', Parameterized (Single (p ''userId''))
           [(''orders'', NestedSchema [(''byId'', KeyDefinition [Ph (p_number ''orderId'')])])])])]))
     [Get ''param'', Get ''user'', Call (Some (object_literal [''userId'' \<mapsto> Str ''u-sep''])),
      Get ''orders'', Get ''byId'', Call (Some (object_literal Map.empty))]
     = Some (Inl (missing_argument ''orderId'' ''param:user:u-sep:orders:orderId''))"
    by (simp add: createKeyBuilder_def defineSchema_def processSchemaLevel_def leaf_def
        builder_def parameterizerFunc_def arg_value_def object_literal_def Object_prototype_def
        native_def missing_def p_def p_number_def pBase_def keyPathHint_def)
  have h3: "key_parts (Level (createKeyBuilder None
       [(''param'', NestedSchema [(''user'', Parameterized (Single (p ''userId''))
           [(''orders'', NestedSchema [(''byId'', KeyDefinition [Ph (p_number ''orderId'')])])])])]))
     [Get ''param'', Get ''user'', Call (Some (object_literal [''userId'' \<mapsto> Str ''u-sep''])),
      Get ''orders'', Get ''byId'', Call (Some (object_literal [''orderId'' \<mapsto> Num 7]))]
     = Some (Inr [''param'', ''user'', ''u-sep'', ''orders'', ''7''])"
    by (simp add: createKeyBuilder_def defineSchema_def processSchemaLevel_def leaf_def
        parameterizerFunc_def arg_value_def object_literal_def missing_def
        p_def p_number_def pBase_def digits.simps)
  from separator_substitution [THEN conjunct1, rule_format, OF h1]
  obtain tokens where
    k: "\<And>o2. key_parts (Level (createKeyBuilder o2
       [(''param'', NestedSchema [(''user'', Parameterized (Single (p ''userId''))
           [(''orders'', NestedSchema [(''byId'', KeyDefinition [Ph (p_number ''orderId'')])])])])]))
     [Get ''param'', Get ''user'', Call (Some (object_literal [''userId'' \<mapsto> Str ''u-sep''])),
      Get ''orders'', Get ''byId'', Call (Some (object_literal [''orderId'' \<mapsto> Num 7]))] = Some (Inr tokens)"
    and a: "\<And>sep. access (Level (createKeyBuilder (Some \<lparr>separator = Some sep\<rparr>)
       [(''param'', NestedSchema [(''user'', Parameterized (Single (p ''userId''))
           [(''orders'', NestedSchema [(''byId'', KeyDefinition [Ph (p_number ''orderId'')])])])])]))
     [Get ''param'', Get ''user'', Call (Some (object_literal [''userId'' \<mapsto> Str ''u-sep''])),
      Get ''orders'', Get ''byId'', Call (Some (object_literal [''orderId'' \<mapsto> Num 7]))]
       = Some (Inr (if tokens = [] then []
                    else concat (map (\<lambda>t. t @ sep) (butlast tokens)) @ last tokens))"
    by blast
  from k [of None] h3 have t: "tokens = [''param'', ''user'', ''u-sep'', ''orders'', ''7'']"
    by simp
  from separator_substitution [THEN conjunct2, THEN mp, OF h2]
  have e: "\<forall>o2. \<exists>e'. access (Level (createKeyBuilder o2
       [(''param'', NestedSchema [(''user'', Parameterized (Single (p ''userId''))
           [(''orders'', NestedSchema [(''byId'', KeyDefinition [Ph (p_number ''orderId'')])])])])]))
     [Get ''param'', Get ''user'', Call (Some (object_literal [''userId'' \<mapsto> Str ''u-sep''])),
      Get ''orders'', Get ''byId'', Call (Some (object_literal Map.empty))]
     = Some (Inl e')" .
  show ?thesis
    using h1 h3 k [of "Some \<lparr>separator = Some ''->''\<rparr>"] a [of "''->''"] e
    unfolding t by simp
qed

text \<open>
  C9. An empty literal is a token like any other: a leaf whose definition contains an
  empty literal, or whose prefix contains an empty string, returns the join of all its
  tokens, so the separator stands on each side of the empty token where it has a
  neighbour.
\<close>

theorem empty_segments_joined:
  assumes "resolved a (pre @ post)"
  shows "invoke (leaf sep P (pre @ Lit [] # post)) a
           = Some (Inr (Key ((if P @ map (token a) pre = [] then []
                              else join sep (P @ map (token a) pre) @ sep)
                           @ (if post = [] then [] else sep @ join sep (map (token a) post)))))
       \<and> invoke (leaf sep (P1 @ [] # P2) (pre @ post)) a
           = Some (Inr (Key ((if P1 = [] then [] else join sep P1 @ sep)
                           @ (if P2 @ map (token a) (pre @ post) = [] then []
                              else sep @ join sep (P2 @ map (token a) (pre @ post))))))
       \<and> builder sep [Lit x, Lit [], Lit y] a = Inr (x @ sep @ sep @ y)"
proof (intro conjI)
  have r: "resolved a (pre @ Lit [] # post)"
    using assms by (auto simp: resolved_def)
  have "join sep (P @ map (token a) (pre @ Lit [] # post))
      = join sep ((P @ map (token a) pre) @ [] # map (token a) post)"
    by simp
  also have "\<dots> = (if P @ map (token a) pre = [] then []
                    else join sep (P @ map (token a) pre) @ sep)
                 @ (if post = [] then [] else sep @ join sep (map (token a) post))"
    unfolding join_append_empty by simp
  finally show "invoke (leaf sep P (pre @ Lit [] # post)) a
           = Some (Inr (Key ((if P @ map (token a) pre = [] then []
                              else join sep (P @ map (token a) pre) @ sep)
                           @ (if post = [] then [] else sep @ join sep (map (token a) post)))))"
    unfolding invoke_leaf_resolved [OF r] by simp
next
  have "join sep ((P1 @ [] # P2) @ map (token a) (pre @ post))
      = join sep (P1 @ [] # (P2 @ map (token a) (pre @ post)))"
    by simp
  also have "\<dots> = (if P1 = [] then [] else join sep P1 @ sep)
                 @ (if P2 @ map (token a) (pre @ post) = [] then []
                    else sep @ join sep (P2 @ map (token a) (pre @ post)))"
    unfolding join_append_empty ..
  finally show "invoke (leaf sep (P1 @ [] # P2) (pre @ post)) a
           = Some (Inr (Key ((if P1 = [] then [] else join sep P1 @ sep)
                           @ (if P2 @ map (token a) (pre @ post) = [] then []
                              else sep @ join sep (P2 @ map (token a) (pre @ post))))))"
    unfolding invoke_leaf_resolved [OF assms] by simp
next
  show "builder sep [Lit x, Lit [], Lit y] a = Inr (x @ sep @ sep @ y)"
    by (simp add: builder_def)
qed

theorem empty_segments_joined_witness:
  "resolved (Some (object_literal [''id'' \<mapsto> Num 5])) ([Lit ''user''] @ [Ph (p ''id'')])
   \<and> invoke (leaf '':'' [''app''] ([Lit ''user''] @ Lit [] # [Ph (p ''id'')])) (Some (object_literal [''id'' \<mapsto> Num 5]))
       = Some (Inr (Key ''app:user::5''))
   \<and> invoke (leaf '':'' ([] @ [] # [''app'']) ([Lit ''user''] @ [Ph (p ''id'')])) (Some (object_literal [''id'' \<mapsto> Num 5]))
       = Some (Inr (Key '':app:user:5''))"
proof -
  have h: "resolved (Some (object_literal [''id'' \<mapsto> Num 5])) ([Lit ''user''] @ [Ph (p ''id'')])"
    by (simp add: resolved_def arg_value_def object_literal_def missing_def p_def pBase_def)
  from empty_segments_joined [OF h, of "'':''" "[''app'']" "[]" "[''app'']"]
  show ?thesis using h
    by (simp add: arg_value_def object_literal_def p_def pBase_def digits.simps)
qed

text \<open>
  C10. A key definition may hold several placeholders of the same name \<open>n\<close>. It compiles
  to a leaf, and calling the leaf with an argument object that binds \<open>n\<close> to a value
  \<open>v\<close> that is neither absent nor null puts the text of \<open>v\<close> at every occurrence of
  \<open>n\<close> and returns the key.
\<close>

theorem duplicate_placeholder_names:
  assumes "distinct (map fst schemaLevel)"
    and "(k, KeyDefinition d) \<in> set schemaLevel"
    and "m n = Some v"
    and "\<not> missing v"
    and "\<forall>ph. Ph ph \<in> set d \<and> ph_name ph \<noteq> n \<longrightarrow> \<not> nullish (arg_value (Some (Object m inh)) (ph_name ph))"
  shows "\<exists>c. map_of (processSchemaLevel sep schemaLevel P) k = Some c
           \<and> invoke c (Some (Object m inh))
               = Some (Inr (Key (join sep (P @ map (\<lambda>pt. case pt of
                     Lit s \<Rightarrow> s
                   | Ph ph \<Rightarrow> if ph_name ph = n then String_js v
                               else String_of (arg_value (Some (Object m inh)) (ph_name ph))) d))))"
proof -
  have n: "arg_value (Some (Object m inh)) n = Plain v"
    using assms(3) by (simp add: arg_value_def)
  have r: "resolved (Some (Object m inh)) d"
    unfolding resolved_def
  proof (intro allI impI)
    fix ph assume "Ph ph \<in> set d"
    then show "\<not> nullish (arg_value (Some (Object m inh)) (ph_name ph))"
      using assms(4,5) n by (cases "ph_name ph = n") auto
  qed
  have t: "map (token (Some (Object m inh))) d = map (\<lambda>pt. case pt of
                     Lit s \<Rightarrow> s
                   | Ph ph \<Rightarrow> if ph_name ph = n then String_js v
                               else String_of (arg_value (Some (Object m inh)) (ph_name ph))) d"
    using n by (auto split: part.splits)
  have "map_of (processSchemaLevel sep schemaLevel P) k = Some (leaf sep P d)"
    using processSchemaLevel_lookup [OF assms(1,2)] by simp
  then show ?thesis
    using invoke_leaf_resolved [OF r, of sep P] unfolding t by simp
qed

theorem duplicate_placeholder_names_witness:
  "distinct (map fst [(''pair'', KeyDefinition [Lit ''pair'', Ph (p ''id''), Lit ''vs'', Ph (p_number ''id'')])])
   \<and> [''id'' \<mapsto> Num 42] ''id'' = Some (Num 42) \<and> \<not> missing (Num 42)
   \<and> (\<exists>c. map_of (processSchemaLevel '':''
              [(''pair'', KeyDefinition [Lit ''pair'', Ph (p ''id''), Lit ''vs'', Ph (p_number ''id'')])]
              []) ''pair'' = Some c
          \<and> invoke c (Some (object_literal [''id'' \<mapsto> Num 42])) = Some (Inr (Key ''pair:42:vs:42'')))"
proof -
  have h1: "distinct (map fst [(''pair'', KeyDefinition [Lit ''pair'', Ph (p ''id''), Lit ''vs'', Ph (p_number ''id'')])])"
    by simp
  have h2: "(''pair'', KeyDefinition [Lit ''pair'', Ph (p ''id''), Lit ''vs'', Ph (p_number ''id'')])
      \<in> set [(''pair'', KeyDefinition [Lit ''pair'', Ph (p ''id''), Lit ''vs'', Ph (p_number ''id'')])]"
    by simp
  have h3: "[''id'' \<mapsto> Num 42] ''id'' = Some (Num 42)" by simp
  have h4: "\<not> missing (Num 42)" by (simp add: missing_def)
  have h5: "\<forall>ph. Ph ph \<in> set [Lit ''pair'', Ph (p ''id''), Lit ''vs'', Ph (p_number ''id'')]
        \<and> ph_name ph \<noteq> ''id'' \<longrightarrow> \<not> nullish (arg_value (Some (Object [''id'' \<mapsto> Num 42] Object_prototype)) (ph_name ph))"
    by (auto simp: p_def p_number_def pBase_def)
  from duplicate_placeholder_names [OF h1 h2 h3 h4 h5, of "'':''" "[]"]
  show ?thesis using h1 h4
    by (simp add: p_def p_number_def pBase_def digits.simps object_literal_def)
qed

end
